theory Spec2Isabelle
  imports Main "HOL-Library.AList" "HOL-Library.Multiset"
begin

section \<open>The urlcodec package: data model\<close>

text \<open>
  The decoder of \<^verbatim>\<open>urlencoder.go\<close> builds a tree of Go values of dynamic type
  \<^verbatim>\<open>any\<close>. Four dynamic types occur: a string leaf, a \<^verbatim>\<open>map[string]any\<close>, a
  \<^verbatim>\<open>*minSlice\<close> (the sparse helper, a \<^verbatim>\<open>map[int]any\<close>) and, after the final pass,
  a \<^verbatim>\<open>[]any\<close>. Go maps are modelled as association lists that are only ever changed
  by \<open>AList.update\<close> (Go's \<^verbatim>\<open>m[k] = v\<close>) and read by \<open>map_of\<close>. The order of an
  association list stands for the order in which Go's \<^verbatim>\<open>range\<close> happens to visit the
  map; Go leaves that order unspecified, so no theorem below depends on it other than
  through multisets.
\<close>

datatype node =
    Str string
  | MapN "(string \<times> node) list"
  | MinSlice "(int \<times> node) list"
  | SliceN "node list"

type_synonym urlData = "(string \<times> node) list"

text \<open>\<^verbatim>\<open>url.Values\<close> is \<^verbatim>\<open>map[string][]string\<close>.\<close>

type_synonym urlValues = "(string \<times> string list) list"

text \<open>
  The errors are \<^verbatim>\<open>fmt.Errorf\<close> strings in the source; each constructor stands for one
  format string. \<open>PanicIndexOutOfRange\<close> is the run-time panic of an index expression
  on an empty slice, which is not an error value of the program.
\<close>

datatype error =
    ConflictingKeyEmpty
  | RecursionDepthExceeded
  | InvalidSliceIndex string
  | ConflictingKey string
  | ExpectedMap
  | InvalidSliceIndexList "string list"
  | InvalidIndex string
  | NegativeIndex int
  | ExpectedMinSlice
  | SliceSizeExceeded
  | PanicIndexOutOfRange
  | UnsupportedKind string
  | MapKeysMustBeStrings string
  | NoJsonTag string

definition maxRecursionDepth :: nat where
  "maxRecursionDepth = 10"

definition maxSliceSize :: nat where
  "maxSliceSize = 1000"

text \<open>\<^verbatim>\<open>len(m)\<close> of a Go map: the number of distinct keys.\<close>

definition len_map :: "('k \<times> 'v) list \<Rightarrow> nat" where
  "len_map m = length (remdups (map fst m))"

section \<open>Library functions the decoder calls\<close>

text \<open>
  The classes \<^verbatim>\<open>\d\<close> and \<^verbatim>\<open>\w\<close> of Go's \<^verbatim>\<open>regexp\<close> (RE2 syntax) are ASCII only:
  \<^verbatim>\<open>[0-9]\<close> and \<^verbatim>\<open>[0-9A-Za-z_]\<close>.
\<close>

definition isDigit :: "char \<Rightarrow> bool" where
  "isDigit c = (c \<in> set ''0123456789'')"

definition isWord :: "char \<Rightarrow> bool" where
  "isWord c = (c \<in> set ''0123456789abcdefghijklmnopqrstuvwxyzABCDEFGHIJKLMNOPQRSTUVWXYZ_'')"

text \<open>
  \<open>matchHere s\<close>: a match of \<^verbatim>\<open>(\w+)\[(\d+)\]\<close> that starts at the first character of
  \<open>s\<close>. Both repetitions are greedy, and a shorter choice can never be followed by the
  bracket the pattern demands next, so the only candidate takes the longest run of word
  characters and then the longest run of digits. The result is what
  \<^verbatim>\<open>FindStringSubmatch\<close> returns: the whole match and the two groups.
\<close>

definition matchHere :: "string \<Rightarrow> string list option" where
  "matchHere s =
     (let w = takeWhile isWord s; r = dropWhile isWord s in
      if w = [] then None
      else (case r of
              [] \<Rightarrow> None
            | c # r' \<Rightarrow>
                if c \<noteq> CHR ''['' then None
                else (let d = takeWhile isDigit r'; r'' = dropWhile isDigit r' in
                      if d = [] then None
                      else (case r'' of
                              [] \<Rightarrow> None
                            | c' # _ \<Rightarrow>
                                if c' \<noteq> CHR '']'' then None
                                else Some [w @ ''['' @ d @ '']'', w, d]))))"

text \<open>
  \<^verbatim>\<open>regexp.MustCompile(sliceRegexp).FindStringSubmatch(s)\<close>: the pattern is not
  anchored, so the leftmost position at which it matches is taken; \<open>None\<close> is Go's
  \<^verbatim>\<open>nil\<close>.
\<close>

fun FindStringSubmatch :: "string \<Rightarrow> string list option" where
  "FindStringSubmatch [] = None"
| "FindStringSubmatch (c # cs) =
     (case matchHere (c # cs) of
        Some m \<Rightarrow> Some m
      | None \<Rightarrow> FindStringSubmatch cs)"

text \<open>\<^verbatim>\<open>strings.Split(key, ".")\<close>.\<close>

fun Split :: "string \<Rightarrow> string list" where
  "Split [] = [] # []"
| "Split (c # cs) =
     (if c = CHR ''.'' then [] # Split cs
      else (case Split cs of
              [] \<Rightarrow> [c] # []
            | p # ps \<Rightarrow> (c # p) # ps))"

text \<open>
  \<^verbatim>\<open>strconv.Atoi\<close> with a 64-bit \<^verbatim>\<open>int\<close>: an optional sign, then one or more decimal
  digits, and the value must fit; \<open>None\<close> stands for its error.
\<close>

definition digitVal :: "char \<Rightarrow> int" where
  "digitVal c = int (of_char c) - 48"

fun parseDigits :: "string \<Rightarrow> int \<Rightarrow> int" where
  "parseDigits [] acc = acc"
| "parseDigits (c # cs) acc = parseDigits cs (acc * 10 + digitVal c)"

definition Atoi :: "string \<Rightarrow> int option" where
  "Atoi s =
     (let neg = (case s of [] \<Rightarrow> False | c # _ \<Rightarrow> c = CHR ''-'');
          ds = (case s of [] \<Rightarrow> [] | c # r \<Rightarrow> if c = CHR ''-'' \<or> c = CHR ''+'' then r else s)
      in if ds = [] then None
         else if list_all isDigit ds then
           (let n = parseDigits ds 0; v = (if neg then - n else n) in
            if v < - (2 ^ 63) then None
            else if 2 ^ 63 - 1 < v then None
            else Some v)
         else None)"

section \<open>The decoder\<close>

text \<open>\<^verbatim>\<open>parseSliceIndex\<close>.\<close>

definition parseSliceIndex :: "string list \<Rightarrow> error + (string \<times> int)" where
  "parseSliceIndex sliceIndex =
     (if length sliceIndex \<noteq> 3 then Inl (InvalidSliceIndexList sliceIndex)
      else (let sliceName = sliceIndex ! 1; index = sliceIndex ! 2 in
            case Atoi index of
              None \<Rightarrow> Inl (InvalidIndex index)
            | Some idx \<Rightarrow>
                if idx < 0 then Inl (NegativeIndex idx)
                else Inr (sliceName, idx)))"

text \<open>
  \<^verbatim>\<open>getOrCreateSlice\<close> stores a fresh \<^verbatim>\<open>minSlice\<close> under the name when the name is
  unbound, and returns the \<^verbatim>\<open>*minSlice\<close> bound to it. The model returns the map after
  that store together with the elements of the sparse slice.
\<close>

definition getOrCreateSlice :: "urlData \<Rightarrow> string \<Rightarrow> error + (urlData \<times> (int \<times> node) list)" where
  "getOrCreateSlice current sliceName =
     (let current' = (case map_of current sliceName of
                        None \<Rightarrow> AList.update sliceName (MinSlice []) current
                      | Some _ \<Rightarrow> current)
      in case map_of current' sliceName of
           Some (MinSlice elements) \<Rightarrow>
             if maxSliceSize \<le> len_map elements then Inl SliceSizeExceeded
             else Inr (current', elements)
         | _ \<Rightarrow> Inl ExpectedMinSlice)"

text \<open>\<^verbatim>\<open>setSliceValue\<close>: \<^verbatim>\<open>slice.set(idx, value)\<close>, then the slice is stored back.\<close>

definition setSliceValue :: "urlData \<Rightarrow> string list \<Rightarrow> node \<Rightarrow> error + urlData" where
  "setSliceValue current sliceIndex v =
     (case parseSliceIndex sliceIndex of
        Inl e \<Rightarrow> Inl e
      | Inr (sliceName, idx) \<Rightarrow>
          (case getOrCreateSlice current sliceName of
             Inl e \<Rightarrow> Inl e
           | Inr (current', elements) \<Rightarrow>
               Inr (AList.update sliceName (MinSlice (AList.update idx v elements)) current')))"

text \<open>\<^verbatim>\<open>setFinalValue\<close>.\<close>

definition setFinalValue :: "urlData \<Rightarrow> string \<Rightarrow> node \<Rightarrow> error + urlData" where
  "setFinalValue current part v =
     (if CHR ''['' \<in> set part \<and> CHR '']'' \<in> set part \<and> FindStringSubmatch part = None
      then Inl (InvalidSliceIndex part)
      else (case FindStringSubmatch part of
              Some sliceIndex \<Rightarrow> setSliceValue current sliceIndex v
            | None \<Rightarrow>
                (case map_of current part of
                   Some _ \<Rightarrow> Inl (ConflictingKey part)
                 | None \<Rightarrow> Inr (AList.update part v current))))"

text \<open>
  \<^verbatim>\<open>getIntermediateValue\<close> returns a Go map, which is a reference into the tree: what the
  caller later writes through it is seen from the root. The model returns the parent
  after the stores the function itself makes, the place of the child in it, and the
  child; \<open>putBack\<close> then stores an updated child at that place.
\<close>

datatype place = AtKey string | AtIndex string int

definition getMap :: "urlData \<Rightarrow> string \<Rightarrow> error + urlData" where
  "getMap current part =
     (case map_of current part of
        None \<Rightarrow> Inl ExpectedMap
      | Some (MapN m) \<Rightarrow> Inr m
      | Some _ \<Rightarrow> Inl ExpectedMap)"

definition createMapIntoSlice :: "string list \<Rightarrow> urlData \<Rightarrow> error + (urlData \<times> place \<times> urlData)" where
  "createMapIntoSlice sliceIndex current =
     (case parseSliceIndex sliceIndex of
        Inl e \<Rightarrow> Inl e
      | Inr (sliceName, idx) \<Rightarrow>
          (case getOrCreateSlice current sliceName of
             Inl e \<Rightarrow> Inl e
           | Inr (current', elements) \<Rightarrow>
               (let elements' = (case map_of elements idx of
                                   None \<Rightarrow> AList.update idx (MapN []) elements
                                 | Some _ \<Rightarrow> elements)
                in case map_of elements' idx of
                     Some (MapN m) \<Rightarrow>
                       Inr (AList.update sliceName (MinSlice elements') current',
                            AtIndex sliceName idx, m)
                   | _ \<Rightarrow> Inl ExpectedMap)))"

definition getIntermediateValue :: "urlData \<Rightarrow> string \<Rightarrow> error + (urlData \<times> place \<times> urlData)" where
  "getIntermediateValue current part =
     (case FindStringSubmatch part of
        Some sliceIndex \<Rightarrow> createMapIntoSlice sliceIndex current
      | None \<Rightarrow>
          (let current' = (case map_of current part of
                             None \<Rightarrow> AList.update part (MapN []) current
                           | Some _ \<Rightarrow> current)
           in case getMap current' part of
                Inl e \<Rightarrow> Inl e
              | Inr m \<Rightarrow> Inr (current', AtKey part, m)))"

fun putBack :: "urlData \<Rightarrow> place \<Rightarrow> urlData \<Rightarrow> urlData" where
  "putBack current (AtKey part) child = AList.update part (MapN child) current"
| "putBack current (AtIndex sliceName idx) child =
     (case map_of current sliceName of
        Some (MinSlice elements) \<Rightarrow>
          AList.update sliceName (MinSlice (AList.update idx (MapN child) elements)) current
      | _ \<Rightarrow> current)"

text \<open>
  The loop of \<^verbatim>\<open>setNestedMapValue\<close> over the parts of the key. The counter is
  incremented once for every part the loop reaches and is returned with the result;
  the source compares it with nothing.
\<close>

fun walkParts :: "urlData \<Rightarrow> string list \<Rightarrow> node \<Rightarrow> int \<Rightarrow> int \<times> (error + urlData)" where
  "walkParts current [] v depth = (depth, Inr current)"
| "walkParts current (part # rest) v depth =
     (if rest = [] then (depth + 1, setFinalValue current part v)
      else (case getIntermediateValue current part of
              Inl e \<Rightarrow> (depth + 1, Inl e)
            | Inr (current', pl, child) \<Rightarrow>
                (case walkParts child rest v (depth + 1) of
                   (d, Inl e) \<Rightarrow> (d, Inl e)
                 | (d, Inr child') \<Rightarrow> (d, Inr (putBack current' pl child')))))"

definition setNestedMapValue :: "urlData \<Rightarrow> string \<Rightarrow> node \<Rightarrow> int \<Rightarrow> int \<times> (error + urlData)" where
  "setNestedMapValue current key v depth =
     (if key = [] then
        (case map_of current [] of
           Some _ \<Rightarrow> (depth, Inl ConflictingKeyEmpty)
         | None \<Rightarrow> (depth, Inr (AList.update [] v current)))
      else (let parts = Split key in
            if maxRecursionDepth < length parts then (depth, Inl RecursionDepthExceeded)
            else walkParts current parts v depth))"

text \<open>
  The loop of \<^verbatim>\<open>decodeURL\<close>. The list is the map of values in the order in which
  \<^verbatim>\<open>range\<close> visits it. \<^verbatim>\<open>value[0]\<close> panics on an empty slice. The counter that the
  loop threads through the calls is returned next to the result so that it can be
  observed.
\<close>

fun decodeLoop :: "urlData \<Rightarrow> int \<Rightarrow> urlValues \<Rightarrow> int \<times> (error + urlData)" where
  "decodeLoop urlData depth [] = (depth, Inr urlData)"
| "decodeLoop urlData depth ((key, vs) # rest) =
     (case vs of
        [] \<Rightarrow> (depth, Inl PanicIndexOutOfRange)
      | v0 # _ \<Rightarrow>
          (case setNestedMapValue urlData key (Str v0) depth of
             (d, Inl e) \<Rightarrow> (d, Inl e)
           | (d, Inr urlData') \<Rightarrow> decodeLoop urlData' d rest))"

text \<open>
  \<^verbatim>\<open>minSlice.toSlice\<close> appends the value of every key of the map once
  (\<open>AList.clearjunk\<close> drops the entries of an association list that an earlier entry
  with the same key hides; on the lists the decoder builds it changes nothing).
  \<^verbatim>\<open>convertMinSlicesToRegularSlices\<close>: a sparse slice bound to a key becomes the slice
  of its elements, a map bound to a key is walked, every other value stays.
\<close>

definition toSlice :: "(int \<times> node) list \<Rightarrow> node list" where
  "toSlice elements = map snd (AList.clearjunk elements)"

primrec convertValue :: "node \<Rightarrow> node" where
  "convertValue (Str s) = Str s"
| "convertValue (MapN m) = MapN (map (map_prod id convertValue) m)"
| "convertValue (MinSlice elements) = SliceN (toSlice elements)"
| "convertValue (SliceN xs) = SliceN xs"

definition convertMinSlicesToRegularSlices :: "urlData \<Rightarrow> urlData" where
  "convertMinSlicesToRegularSlices data = map (map_prod id convertValue) data"

definition decodeURL :: "urlValues \<Rightarrow> error + urlData" where
  "decodeURL vals =
     (case snd (decodeLoop [] 0 vals) of
        Inl e \<Rightarrow> Inl e
      | Inr urlData \<Rightarrow> Inr (convertMinSlicesToRegularSlices urlData))"

definition Decode :: "urlValues \<Rightarrow> error + urlData" where
  "Decode vals = decodeURL vals"

section \<open>The encoder\<close>

text \<open>
  The encoder walks a \<^verbatim>\<open>reflect.Value\<close> and branches on its kind. A value of the model
  is a reflected value: \<open>VInvalid\<close> is the zero \<^verbatim>\<open>reflect.Value\<close> that
  \<^verbatim>\<open>reflect.ValueOf(nil)\<close> returns, \<open>VPtr\<close> and \<open>VInterface\<close> are the kinds
  \<^verbatim>\<open>Ptr\<close> and \<^verbatim>\<open>Interface\<close> (\<open>None\<close> when \<^verbatim>\<open>IsNil\<close>, otherwise what \<^verbatim>\<open>Elem\<close>
  gives), \<open>VInt\<close> covers the kinds \<^verbatim>\<open>Int\<close>, \<^verbatim>\<open>Int32\<close> and \<^verbatim>\<open>Int64\<close>, \<open>VMap\<close> is a
  map with string keys in the order \<^verbatim>\<open>MapKeys\<close> lists them, \<open>VMapNonString k\<close> a map
  whose keys have kind \<open>k\<close>, and \<open>VOther k\<close> any kind without a case of its own (the
  other integer widths, arrays, channels, functions and so on). A struct is the list of
  its fields: name, the \<^verbatim>\<open>Anonymous\<close> flag, the value of the \<^verbatim>\<open>json\<close> tag, and the
  field's value. A float is carried as the text \<^verbatim>\<open>fmt.Sprintf("%f", x)\<close> prints for it;
  floating-point formatting itself is not modelled.
\<close>

datatype gvalue =
    VInvalid
  | VPtr "gvalue option"
  | VInterface "gvalue option"
  | VString string
  | VInt int
  | VFloat string
  | VBool bool
  | VSlice "gvalue list"
  | VMap "(string \<times> gvalue) list"
  | VMapNonString string
  | VStruct "(string \<times> bool \<times> string \<times> gvalue) list"
  | VOther string

text \<open>Decimal printing: \<^verbatim>\<open>%d\<close> of \<^verbatim>\<open>fmt.Sprintf\<close>.\<close>

definition digitChar :: "nat \<Rightarrow> char" where
  "digitChar n = ''0123456789'' ! n"

fun natDigits :: "nat \<Rightarrow> string" where
  "natDigits n = (if n < 10 then [digitChar n] else natDigits (n div 10) @ [digitChar (n mod 10)])"

declare natDigits.simps [simp del]

definition Itoa :: "int \<Rightarrow> string" where
  "Itoa i = (if i < 0 then CHR ''-'' # natDigits (nat (- i)) else natDigits (nat i))"

text \<open>\<^verbatim>\<open>strconv.FormatBool\<close>.\<close>

definition FormatBool :: "bool \<Rightarrow> string" where
  "FormatBool b = (if b then ''true'' else ''false'')"

text \<open>\<^verbatim>\<open>values.Set(key, value)\<close> replaces what is bound to the key by the one value.\<close>

definition Set_value :: "urlValues \<Rightarrow> string \<Rightarrow> string \<Rightarrow> urlValues" where
  "Set_value vals key s = AList.update key [s] vals"




section \<open>Predicates used in the statements\<close>

text \<open>A \<^verbatim>\<open>*minSlice\<close> occurs somewhere in the value.\<close>

primrec hasMinSlice :: "node \<Rightarrow> bool" where
  "hasMinSlice (Str s) = False"
| "hasMinSlice (MapN m) = list_ex snd (map (map_prod id hasMinSlice) m)"
| "hasMinSlice (MinSlice elements) = True"
| "hasMinSlice (SliceN xs) = list_ex id (map hasMinSlice xs)"

text \<open>The errors that the handling of a single path segment can return.\<close>

definition segmentError :: "error \<Rightarrow> bool" where
  "segmentError e =
     (case e of
        InvalidSliceIndex _ \<Rightarrow> True
      | ConflictingKey _ \<Rightarrow> True
      | ExpectedMap \<Rightarrow> True
      | InvalidIndex _ \<Rightarrow> True
      | ExpectedMinSlice \<Rightarrow> True
      | SliceSizeExceeded \<Rightarrow> True
      | _ \<Rightarrow> False)"

text \<open>Every sparse slice in the value holds at most 1000 entries.\<close>

primrec slicesBounded :: "node \<Rightarrow> bool" where
  "slicesBounded (Str s) = True"
| "slicesBounded (MapN m) = list_all snd (map (map_prod id slicesBounded) m)"
| "slicesBounded (MinSlice elements) =
     (len_map elements \<le> maxSliceSize \<and> list_all snd (map (map_prod id slicesBounded) elements))"
| "slicesBounded (SliceN xs) = list_all id (map slicesBounded xs)"


fun indexElements :: "string \<Rightarrow> nat \<Rightarrow> (int \<times> node) list" where
  "indexElements v 0 = []"
| "indexElements v (Suc n) = indexElements v n @ [(int n, Str v)]"

section \<open>The round trip: what is claimed\<close>




section \<open>The round trip: paths and the values it holds for\<close>

text \<open>
  A path segment as the decoder reads it: a name, or a name with an index. The
  renderings are the strings the encoder builds for them.
\<close>

datatype seg = Nm string | Ix string int








section \<open>The round trip: notions of the proof\<close>

text \<open>
  What a segment selects in a decoded map, when that is a string or a map, and the
  string a path leads to.
\<close>

definition strOrMap :: "node option \<Rightarrow> node option" where
  "strOrMap r = (case r of Some (Str s) \<Rightarrow> Some (Str s) | Some (MapN m) \<Rightarrow> Some (MapN m) | _ \<Rightarrow> None)"

fun child :: "urlData \<Rightarrow> seg \<Rightarrow> node option" where
  "child m (Nm k) = strOrMap (map_of m k)"
| "child m (Ix k i) = (case map_of m k of Some (MinSlice e) \<Rightarrow> strOrMap (map_of e i) | _ \<Rightarrow> None)"




fun internal :: "gvalue \<Rightarrow> node" where
  "internal (VInterface (Some v)) = internal v"
| "internal (VString s) = Str s"
| "internal (VInt i) = Str (Itoa i)"
| "internal (VFloat s) = Str s"
| "internal (VBool b) = Str (FormatBool b)"
| "internal (VSlice xs) = MinSlice (zip (map int [0..<length xs]) (map internal xs))"
| "internal (VMap m) = MapN (map (\<lambda>(k, v). (k, internal v)) m)"
| "internal _ = Str []"

definition internalMap :: "(string \<times> gvalue) list \<Rightarrow> urlData" where
  "internalMap m = map (\<lambda>(k, v). (k, internal v)) m"

definition internalSlice :: "gvalue list \<Rightarrow> (int \<times> node) list" where
  "internalSlice xs = zip (map int [0..<length xs]) (map internal xs)"











definition setAll :: "(string \<times> string) list \<Rightarrow> urlValues \<Rightarrow> urlValues" where
  "setAll kvs vals = fold (\<lambda>ks acc. Set_value acc (fst ks) (snd ks)) kvs vals"

text \<open>The final pass applies to what is bound in a map, not to the elements of a slice.\<close>

definition cv :: "bool \<Rightarrow> node \<Rightarrow> node" where
  "cv a x = (if a then convertValue x else x)"

section \<open>Facts about the library functions\<close>

lemma isDigit_digitVal: "isDigit c \<Longrightarrow> 0 \<le> digitVal c \<and> digitVal c \<le> 9"
  by (auto simp: isDigit_def digitVal_def)

lemma isDigit_not_sign: "isDigit c \<Longrightarrow> c \<noteq> CHR ''-'' \<and> c \<noteq> CHR ''+''"
  by (auto simp: isDigit_def)

lemma parseDigits_nonneg: "list_all isDigit ds \<Longrightarrow> 0 \<le> acc \<Longrightarrow> 0 \<le> parseDigits ds acc"
proof (induction ds arbitrary: acc)
  case Nil then show ?case by simp
next
  case (Cons c cs)
  then have "0 \<le> acc * 10 + digitVal c" using isDigit_digitVal[of c] by simp
  with Cons show ?case by simp
qed

lemma Atoi_digits_nonneg:
  assumes "list_all isDigit ds" and "Atoi ds = Some i"
  shows "0 \<le> i"
proof (cases ds)
  case Nil with assms show ?thesis by (simp add: Atoi_def)
next
  case (Cons c cs)
  with assms(1) have c: "c \<noteq> CHR ''-''" "c \<noteq> CHR ''+''" using isDigit_not_sign[of c] by auto
  from assms(2) Cons c have "i = parseDigits ds 0"
    by (auto simp: Atoi_def Let_def split: if_splits)
  with assms(1) show ?thesis using parseDigits_nonneg[of ds 0] by simp
qed

lemma matchHere_SomeD:
  assumes "matchHere s = Some m"
  shows "\<exists>w d. m = [w @ ''['' @ d @ '']'', w, d] \<and> w \<noteq> [] \<and> list_all isWord w \<and> d \<noteq> [] \<and> list_all isDigit d"
proof -
  have w: "list_all isWord (takeWhile isWord s)"
    by (simp add: list_all_iff) (meson set_takeWhileD)
  have d: "list_all isDigit (takeWhile isDigit r)" for r
    by (simp add: list_all_iff) (meson set_takeWhileD)
  from assms show ?thesis
    using w d by (auto simp: matchHere_def Let_def split: list.splits if_splits)
qed

lemma FindStringSubmatch_SomeD:
  "FindStringSubmatch s = Some m \<Longrightarrow>
   \<exists>w d. m = [w @ ''['' @ d @ '']'', w, d] \<and> w \<noteq> [] \<and> list_all isWord w \<and> d \<noteq> [] \<and> list_all isDigit d"
proof (induction s)
  case Nil then show ?case by simp
next
  case (Cons c cs)
  then show ?case
    by (cases "matchHere (c # cs)") (auto dest: matchHere_SomeD)
qed

lemma not_isWord_bracket: "\<not> isWord CHR ''[''" "\<not> isWord CHR '']''" "\<not> isWord CHR ''.''" "\<not> isWord CHR ''-''"
  by (simp_all add: isWord_def)

lemma not_isDigit_bracket: "\<not> isDigit CHR '']''" "\<not> isDigit CHR ''[''" "\<not> isDigit CHR ''.''"
  by (simp_all add: isDigit_def)

lemma takeWhile_run:
  "list_all P w \<Longrightarrow> \<not> P c \<Longrightarrow> takeWhile P (w @ c # r) = w \<and> dropWhile P (w @ c # r) = c # r"
  by (induction w) auto

lemma matchHere_index:
  assumes "w \<noteq> []" "list_all isWord w" "d \<noteq> []" "list_all isDigit d"
  shows "matchHere (w @ ''['' @ d @ '']'' @ r) = Some [w @ ''['' @ d @ '']'', w, d]"
proof -
  have 1: "takeWhile isWord (w @ CHR ''['' # (d @ CHR '']'' # r)) = w \<and>
           dropWhile isWord (w @ CHR ''['' # (d @ CHR '']'' # r)) = CHR ''['' # (d @ CHR '']'' # r)"
    using takeWhile_run[OF assms(2) not_isWord_bracket(1)] by blast
  have 2: "takeWhile isDigit (d @ CHR '']'' # r) = d \<and> dropWhile isDigit (d @ CHR '']'' # r) = CHR '']'' # r"
    using takeWhile_run[OF assms(4) not_isDigit_bracket(1)] by blast
  show ?thesis
    using assms(1,3) 1 2 by (simp add: matchHere_def)
qed

lemma FindStringSubmatch_index:
  assumes "w \<noteq> []" "list_all isWord w" "d \<noteq> []" "list_all isDigit d"
  shows "FindStringSubmatch (w @ ''['' @ d @ '']'' @ r) = Some [w @ ''['' @ d @ '']'', w, d]"
proof -
  from assms(1) obtain c cs where w: "w = c # cs" by (cases w) auto
  have "matchHere ((c # cs) @ ''['' @ d @ '']'' @ r) = Some [w @ ''['' @ d @ '']'', w, d]"
    using matchHere_index[OF assms, of r] by (simp add: w)
  then show ?thesis by (simp add: w)
qed



lemma digitChar_cases:
  assumes "n < 10"
  shows "digitChar n \<in> set ''0123456789'' \<and> digitVal (digitChar n) = int n"
proof -
  have "list_all (\<lambda>k. digitChar k \<in> set ''0123456789'' \<and> digitVal (digitChar k) = int k) [0..<10]"
    by code_simp
  moreover from assms have "n \<in> set [0..<10]" by simp
  ultimately show ?thesis unfolding list_all_iff by blast
qed

lemma isDigit_digitChar: "n < 10 \<Longrightarrow> isDigit (digitChar n)"
  using digitChar_cases[of n] by (simp add: isDigit_def)

lemma natDigits_digits: "natDigits n \<noteq> [] \<and> list_all isDigit (natDigits n)"
proof (induction n rule: natDigits.induct)
  case (1 n)
  show ?case
  proof (cases "n < 10")
    case True
    then show ?thesis by (subst (1 2) natDigits.simps) (simp add: isDigit_digitChar)
  next
    case False
    with 1 show ?thesis by (subst (1 2) natDigits.simps) (simp add: isDigit_digitChar)
  qed
qed

lemma parseDigits_snoc: "parseDigits (xs @ [c]) acc = parseDigits xs acc * 10 + digitVal c"
  by (induction xs arbitrary: acc) auto

lemma parseDigits_natDigits: "parseDigits (natDigits n) 0 = int n"
proof (induction n rule: natDigits.induct)
  case (1 n)
  show ?case
  proof (cases "n < 10")
    case True
    then show ?thesis by (subst natDigits.simps) (simp add: digitChar_cases)
  next
    case False
    then have "parseDigits (natDigits n) 0 = parseDigits (natDigits (n div 10)) 0 * 10 + digitVal (digitChar (n mod 10))"
      by (subst natDigits.simps) (simp add: parseDigits_snoc)
    also have "\<dots> = int (n div 10) * 10 + int (n mod 10)"
      using 1[OF False] by (simp add: digitChar_cases)
    also have "\<dots> = int n" by (simp add: zdiv_int zmod_int)
    finally show ?thesis .
  qed
qed

lemma Atoi_Itoa:
  assumes "0 \<le> i" "i < 2 ^ 63"
  shows "Atoi (Itoa i) = Some i"
proof -
  let ?s = "natDigits (nat i)"
  have d: "?s \<noteq> []" "list_all isDigit ?s" using natDigits_digits by auto
  then obtain c cs where s: "?s = c # cs" by (cases ?s) auto
  with d(2) have c: "c \<noteq> CHR ''-''" "c \<noteq> CHR ''+''" using isDigit_not_sign[of c] by auto
  have p: "parseDigits ?s 0 = i" using assms(1) by (simp add: parseDigits_natDigits)
  have I: "Itoa i = ?s" using assms(1) by (simp add: Itoa_def)
  have "Atoi ?s = Some i"
    unfolding Atoi_def using c d assms p s
    by (simp add: Let_def)
  with I show ?thesis by simp
qed

lemma Itoa_digits: "0 \<le> i \<Longrightarrow> Itoa i \<noteq> [] \<and> list_all isDigit (Itoa i)"
  using natDigits_digits[of "nat i"] by (simp add: Itoa_def)

section \<open>Where the errors of the decoder come from\<close>

lemma getOrCreateSlice_errors:
  "getOrCreateSlice c n = Inl e \<Longrightarrow> e = SliceSizeExceeded \<or> e = ExpectedMinSlice"
  by (auto simp: getOrCreateSlice_def Let_def split: option.splits node.splits if_splits)

lemma parseSliceIndex_match_errors:
  assumes "FindStringSubmatch s = Some m" and "parseSliceIndex m = Inl e"
  shows "\<exists>ds. e = InvalidIndex ds"
proof -
  from FindStringSubmatch_SomeD[OF assms(1)] obtain w d where
    m: "m = [w @ ''['' @ d @ '']'', w, d]" and d: "list_all isDigit d" by blast
  from assms(2) show ?thesis
    using Atoi_digits_nonneg[OF d] by (auto simp: m parseSliceIndex_def split: option.splits if_splits)
qed

lemma setFinalValue_errors:
  assumes "setFinalValue c p v = Inl e"
  shows "segmentError e"
proof (cases "FindStringSubmatch p")
  case None
  with assms show ?thesis
    by (auto simp: setFinalValue_def segmentError_def split: if_splits option.splits)
next
  case (Some m)
  with assms have "setSliceValue c m v = Inl e" by (simp add: setFinalValue_def)
  then show ?thesis
    using parseSliceIndex_match_errors[OF Some] getOrCreateSlice_errors
    by (fastforce simp: setSliceValue_def segmentError_def split: sum.splits prod.splits)
qed

lemma getIntermediateValue_errors:
  assumes "getIntermediateValue c p = Inl e"
  shows "segmentError e"
proof (cases "FindStringSubmatch p")
  case None
  with assms show ?thesis
    by (auto simp: getIntermediateValue_def getMap_def Let_def segmentError_def
             split: if_splits option.splits node.splits sum.splits)
next
  case (Some m)
  with assms have "createMapIntoSlice m c = Inl e" by (simp add: getIntermediateValue_def)
  then show ?thesis
    using parseSliceIndex_match_errors[OF Some] getOrCreateSlice_errors
    by (fastforce simp: createMapIntoSlice_def Let_def segmentError_def
                  split: sum.splits prod.splits option.splits node.splits)
qed

lemma walkParts_errors:
  "snd (walkParts c ps v d) = Inl e \<Longrightarrow> segmentError e"
proof (induction c ps v d rule: walkParts.induct)
  case (1 current v depth)
  then show ?case by simp
next
  case (2 current part rest v depth)
  show ?case
  proof (cases "rest = []")
    case True
    with 2(2) show ?thesis by (simp add: setFinalValue_errors)
  next
    case False
    show ?thesis
    proof (cases "getIntermediateValue current part")
      case (Inl e')
      with False 2(2) show ?thesis by (simp add: getIntermediateValue_errors)
    next
      case (Inr r)
      obtain current' pl child where r: "r = (current', pl, child)" by (cases r)
      from False Inr r 2(2) have "snd (walkParts child rest v (depth + 1)) = Inl e"
        by (auto split: prod.splits sum.splits)
      with 2(1)[OF False Inr r[symmetric] refl] show ?thesis by simp
    qed
  qed
qed

lemma walkParts_depth:
  "snd (walkParts c ps v d) = snd (walkParts c ps v d')"
proof (induction c ps v d arbitrary: d' rule: walkParts.induct)
  case (1 current v depth)
  then show ?case by simp
next
  case (2 current part rest v depth)
  show ?case
  proof (cases "rest = []")
    case True
    then show ?thesis by simp
  next
    case False
    show ?thesis
    proof (cases "getIntermediateValue current part")
      case (Inl e')
      with False show ?thesis by simp
    next
      case (Inr r)
      obtain current' pl child where r: "r = (current', pl, child)" by (cases r)
      have "snd (walkParts child rest v (depth + 1)) = snd (walkParts child rest v (d' + 1))"
        using 2(1)[OF False Inr r[symmetric] refl] .
      with False Inr r show ?thesis
        by (auto split: prod.splits sum.splits)
    qed
  qed
qed

lemma setNestedMapValue_depth:
  "snd (setNestedMapValue c k v d) = snd (setNestedMapValue c k v d')"
  using walkParts_depth[of c "Split k" v d d']
  by (simp add: setNestedMapValue_def Let_def split: option.splits)

lemma setNestedMapValue_RDE:
  "snd (setNestedMapValue c k v d) = Inl RecursionDepthExceeded \<longleftrightarrow>
   k \<noteq> [] \<and> maxRecursionDepth < length (Split k)"
  using walkParts_errors[of c "Split k" v d RecursionDepthExceeded]
  by (auto simp: setNestedMapValue_def Let_def segmentError_def split: option.splits)

lemma decodeLoop_depth:
  "snd (decodeLoop t d vals) = snd (decodeLoop t d' vals)"
proof (induction vals arbitrary: t d d')
  case Nil
  then show ?case by simp
next
  case (Cons kv vals)
  obtain key vs where kv: "kv = (key, vs)" by (cases kv)
  show ?case
  proof (cases vs)
    case Nil
    with kv show ?thesis by simp
  next
    case (Cons v0 vs')
    have s: "snd (setNestedMapValue t key (Str v0) d) = snd (setNestedMapValue t key (Str v0) d')"
      by (rule setNestedMapValue_depth)
    show ?thesis
    proof (cases "snd (setNestedMapValue t key (Str v0) d)")
      case (Inl e)
      with s kv Cons show ?thesis by (auto split: prod.splits sum.splits)
    next
      case (Inr t')
      with s kv Cons Cons.IH[of t'] show ?thesis
        by (auto split: prod.splits sum.splits)
    qed
  qed
qed

lemma decodeLoop_append:
  "decodeLoop t d (pre @ post) =
     (case decodeLoop t d pre of
        (d', Inl e) \<Rightarrow> (d', Inl e)
      | (d', Inr t') \<Rightarrow> decodeLoop t' d' post)"
proof (induction pre arbitrary: t d)
  case Nil
  then show ?case by simp
next
  case (Cons kv pre)
  obtain key vs where kv: "kv = (key, vs)" by (cases kv)
  show ?case
    by (cases vs) (auto simp: kv Cons.IH split: prod.splits sum.splits)
qed

lemma decodeLoop_error_split:
  "snd (decodeLoop t d vals) = Inl e \<Longrightarrow>
   \<exists>pre key vs post d' t'. vals = pre @ (key, vs) # post \<and> decodeLoop t d pre = (d', Inr t') \<and>
      (case vs of [] \<Rightarrow> e = PanicIndexOutOfRange | v0 # _ \<Rightarrow> snd (setNestedMapValue t' key (Str v0) d') = Inl e)"
proof (induction vals arbitrary: t d)
  case Nil
  then show ?case by simp
next
  case (Cons kv vals)
  obtain key vs where kv: "kv = (key, vs)" by (cases kv)
  show ?case
  proof (cases vs)
    case Nil
    with Cons.prems kv have "e = PanicIndexOutOfRange" by simp
    with Nil kv have "kv # vals = [] @ (key, vs) # vals \<and> decodeLoop t d [] = (d, Inr t) \<and>
      (case vs of [] \<Rightarrow> e = PanicIndexOutOfRange | v0 # _ \<Rightarrow> snd (setNestedMapValue t key (Str v0) d) = Inl e)"
      by simp
    then show ?thesis by blast
  next
    case (Cons v0 vs')
    obtain d1 r1 where s: "setNestedMapValue t key (Str v0) d = (d1, r1)" by (cases "setNestedMapValue t key (Str v0) d")
    show ?thesis
    proof (cases r1)
      case (Inl e1)
      with s Cons kv Cons.prems have "e1 = e" by simp
      with Inl s Cons kv have "kv # vals = [] @ (key, vs) # vals \<and> decodeLoop t d [] = (d, Inr t) \<and>
        (case vs of [] \<Rightarrow> e = PanicIndexOutOfRange | v0 # _ \<Rightarrow> snd (setNestedMapValue t key (Str v0) d) = Inl e)"
        by simp
      then show ?thesis by blast
    next
      case (Inr t1)
      with s Cons kv Cons.prems have "snd (decodeLoop t1 d1 vals) = Inl e" by simp
      from Cons.IH[OF this] obtain pre key' vs2 post d' t' where
        h: "vals = pre @ (key', vs2) # post" "decodeLoop t1 d1 pre = (d', Inr t')"
           "(case vs2 of [] \<Rightarrow> e = PanicIndexOutOfRange | v0 # _ \<Rightarrow> snd (setNestedMapValue t' key' (Str v0) d') = Inl e)"
        by blast
      from h(2) s Inr Cons kv have "decodeLoop t d (kv # pre) = (d', Inr t')" by simp
      moreover from h(1) have "kv # vals = (kv # pre) @ (key', vs2) # post" by simp
      ultimately show ?thesis using h(3) by blast
    qed
  qed
qed

lemma setNestedMapValue_errors:
  assumes "snd (setNestedMapValue c k v d) = Inl e"
  shows "e = ConflictingKeyEmpty \<or> e = RecursionDepthExceeded \<or> segmentError e"
proof (cases "k = []")
  case True
  with assms show ?thesis by (auto simp: setNestedMapValue_def split: option.splits)
next
  case False
  show ?thesis
  proof (cases "maxRecursionDepth < length (Split k)")
    case True
    with False assms show ?thesis by (simp add: setNestedMapValue_def Let_def)
  next
    case False
    with \<open>k \<noteq> []\<close> assms have "snd (walkParts c (Split k) v d) = Inl e"
      by (simp add: setNestedMapValue_def Let_def)
    then show ?thesis by (simp add: walkParts_errors)
  qed
qed

lemma decodeLoop_errors:
  assumes "snd (decodeLoop t d vals) = Inl e"
  shows "e = PanicIndexOutOfRange \<or> e = ConflictingKeyEmpty \<or> e = RecursionDepthExceeded \<or> segmentError e"
proof -
  from decodeLoop_error_split[OF assms] obtain pre key vs post d' t' where
    h: "(case vs of [] \<Rightarrow> e = PanicIndexOutOfRange | v0 # _ \<Rightarrow> snd (setNestedMapValue t' key (Str v0) d') = Inl e)"
    by blast
  show ?thesis
  proof (cases vs)
    case Nil
    with h show ?thesis by simp
  next
    case (Cons v0 vs')
    with h show ?thesis using setNestedMapValue_errors by auto
  qed
qed

lemma decodeURL_Inl: "decodeURL vals = Inl e \<longleftrightarrow> snd (decodeLoop [] 0 vals) = Inl e"
  by (simp add: decodeURL_def split: sum.splits)

lemma FindStringSubmatch_canon:
  assumes "FindStringSubmatch part = Some [full, name, ds]"
  shows "FindStringSubmatch (name @ ''['' @ ds @ '']'') = Some [name @ ''['' @ ds @ '']'', name, ds] \<and> full = name @ ''['' @ ds @ '']''"
proof -
  from FindStringSubmatch_SomeD[OF assms] have
    h: "full = name @ ''['' @ ds @ '']''" "name \<noteq> []" "list_all isWord name" "ds \<noteq> []" "list_all isDigit ds"
    by auto
  from FindStringSubmatch_index[OF h(2-5), of "[]"] h(1) show ?thesis by simp
qed

section \<open>Decoding index segments\<close>


lemma Split_nodot: "CHR ''.'' \<notin> set s \<Longrightarrow> Split s = [s]"
  by (induction s) auto

lemma len_map_update:
  "len_map (AList.update k v al) = (if k \<in> fst ` set al then len_map al else Suc (len_map al))"
  by (simp add: len_map_def update_keys length_remdups_card_conv)

lemma keys_update: "fst ` set (AList.update k v al) = insert k (fst ` set al)"
proof -
  have "set (map fst (AList.update k v al)) = insert k (set (map fst al))"
    by (auto simp: update_keys)
  then show ?thesis by simp
qed

lemma indexKey_parts:
  assumes "list_all isWord name" "list_all isDigit ds"
  shows "Split (name @ ''['' @ ds @ '']'') = [name @ ''['' @ ds @ '']'']"
proof -
  have "CHR ''.'' \<notin> set name" using assms(1) not_isWord_bracket(3) by (auto simp: list_all_iff)
  moreover have "CHR ''.'' \<notin> set ds" using assms(2) not_isDigit_bracket(3) by (auto simp: list_all_iff)
  ultimately show ?thesis by (intro Split_nodot) auto
qed

lemma setFinalValue_index:
  assumes "name \<noteq> []" "list_all isWord name" "ds \<noteq> []" "list_all isDigit ds" "Atoi ds = Some i"
  shows "setFinalValue t (name @ ''['' @ ds @ '']'') v =
     (case map_of t name of
        None \<Rightarrow> Inr (AList.update name (MinSlice [(i, v)]) t)
      | Some (MinSlice e) \<Rightarrow>
          if maxSliceSize \<le> len_map e then Inl SliceSizeExceeded
          else Inr (AList.update name (MinSlice (AList.update i v e)) t)
      | Some _ \<Rightarrow> Inl ExpectedMinSlice)"
proof -
  define part where "part = name @ ''['' @ ds @ '']''"
  have f: "FindStringSubmatch part = Some [part, name, ds]"
    unfolding part_def using FindStringSubmatch_index[OF assms(1-4), of "[]"] by simp
  have i: "0 \<le> i" using Atoi_digits_nonneg[OF assms(4,5)] .
  have "setFinalValue t part v =
     (case map_of t name of
        None \<Rightarrow> Inr (AList.update name (MinSlice [(i, v)]) t)
      | Some (MinSlice e) \<Rightarrow>
          if maxSliceSize \<le> len_map e then Inl SliceSizeExceeded
          else Inr (AList.update name (MinSlice (AList.update i v e)) t)
      | Some _ \<Rightarrow> Inl ExpectedMinSlice)"
    using i assms(5)
    by (auto simp: setFinalValue_def f setSliceValue_def parseSliceIndex_def getOrCreateSlice_def
          update_conv' len_map_def maxSliceSize_def
          split: option.splits node.splits)
  then show ?thesis by (simp add: part_def)
qed

lemma setNestedMapValue_index:
  assumes "name \<noteq> []" "list_all isWord name" "ds \<noteq> []" "list_all isDigit ds"
  shows "setNestedMapValue t (name @ ''['' @ ds @ '']'') v d =
           (d + 1, setFinalValue t (name @ ''['' @ ds @ '']'') v)"
  using assms(1) indexKey_parts[OF assms(2,4)]
  by (simp add: setNestedMapValue_def maxRecursionDepth_def)

lemma fill_slice_exceeds:
  assumes "name \<noteq> []" "list_all isWord name"
  shows "list_all (\<lambda>i. 0 \<le> i \<and> i < 2 ^ 63) idxs \<Longrightarrow> list_all (\<lambda>i. f i \<noteq> []) idxs \<Longrightarrow> distinct idxs \<Longrightarrow>
         set idxs \<inter> fst ` set e = {} \<Longrightarrow> map_of t name = Some (MinSlice e) \<Longrightarrow>
         len_map e \<le> maxSliceSize \<Longrightarrow> maxSliceSize < len_map e + length idxs \<Longrightarrow>
         snd (decodeLoop t d (map (\<lambda>i. (name @ ''['' @ Itoa i @ '']'', f i)) idxs)) = Inl SliceSizeExceeded"
proof (induction idxs arbitrary: t e d)
  case Nil
  then show ?case by simp
next
  case (Cons i idxs)
  from Cons.prems(1) have i: "0 \<le> i" "i < 2 ^ 63" by auto
  from Cons.prems(2) obtain v0 vs where fi: "f i = v0 # vs" by (cases "f i") auto
  have st: "setNestedMapValue t (name @ ''['' @ Itoa i @ '']'') (Str v0) d =
      (d + 1, if maxSliceSize \<le> len_map e then Inl SliceSizeExceeded
              else Inr (AList.update name (MinSlice (AList.update i (Str v0) e)) t))"
    using setNestedMapValue_index[OF assms, of "Itoa i"] Itoa_digits[OF i(1)]
      setFinalValue_index[OF assms, of "Itoa i" i] Atoi_Itoa[OF i] Cons.prems(5)
    by simp
  show ?case
  proof (cases "maxSliceSize \<le> len_map e")
    case True
    with st fi show ?thesis by simp
  next
    case False
    let ?e = "AList.update i (Str v0) e"
    let ?t = "AList.update name (MinSlice ?e) t"
    from Cons.prems(4) have inotin: "i \<notin> fst ` set e" by auto
    then have len: "len_map ?e = Suc (len_map e)" by (simp add: len_map_update)
    have "snd (decodeLoop ?t (d + 1) (map (\<lambda>i. (name @ ''['' @ Itoa i @ '']'', f i)) idxs)) = Inl SliceSizeExceeded"
    proof (rule Cons.IH)
      show "list_all (\<lambda>i. 0 \<le> i \<and> i < 2 ^ 63) idxs" using Cons.prems(1) by simp
      show "list_all (\<lambda>i. f i \<noteq> []) idxs" using Cons.prems(2) by simp
      show "distinct idxs" using Cons.prems(3) by simp
      show "set idxs \<inter> fst ` set ?e = {}"
        using Cons.prems(3,4) by (auto simp: keys_update)
      show "map_of ?t name = Some (MinSlice ?e)" by (simp add: update_conv')
      show "len_map ?e \<le> maxSliceSize" using False len by simp
      show "maxSliceSize < len_map ?e + length idxs" using Cons.prems(7) len by simp
    qed
    with st fi False show ?thesis by simp
  qed
qed

lemma decode_too_many_indices:
  assumes "name \<noteq> []" "list_all isWord name" "distinct idxs" "maxSliceSize < length idxs"
    "list_all (\<lambda>i. 0 \<le> i \<and> i < 2 ^ 63) idxs" "list_all (\<lambda>i. f i \<noteq> []) idxs"
  shows "snd (decodeLoop [] d (map (\<lambda>i. (name @ ''['' @ Itoa i @ '']'', f i)) idxs)) = Inl SliceSizeExceeded"
proof -
  from assms(4) obtain i rest where idxs: "idxs = i # rest" by (cases idxs) auto
  from assms(5) idxs have i: "0 \<le> i" "i < 2 ^ 63" by auto
  from assms(6) idxs obtain v0 vs where fi: "f i = v0 # vs" by (cases "f i") auto
  have st: "setNestedMapValue [] (name @ ''['' @ Itoa i @ '']'') (Str v0) d =
      (d + 1, Inr [(name, MinSlice [(i, Str v0)])])"
    using setNestedMapValue_index[OF assms(1,2), of "Itoa i"] Itoa_digits[OF i(1)]
      setFinalValue_index[OF assms(1,2), of "Itoa i" i] Atoi_Itoa[OF i]
    by simp
  have "snd (decodeLoop [(name, MinSlice [(i, Str v0)])] (d + 1)
          (map (\<lambda>i. (name @ ''['' @ Itoa i @ '']'', f i)) rest)) = Inl SliceSizeExceeded"
  proof (rule fill_slice_exceeds[OF assms(1,2), where e = "[(i, Str v0)]"])
    show "list_all (\<lambda>i. 0 \<le> i \<and> i < 2 ^ 63) rest" using assms(5) idxs by simp
    show "list_all (\<lambda>i. f i \<noteq> []) rest" using assms(6) idxs by simp
    show "distinct rest" using assms(3) idxs by simp
    show "set rest \<inter> fst ` set [(i, Str v0)] = {}" using assms(3) idxs by auto
    show "map_of [(name, MinSlice [(i, Str v0)])] name = Some (MinSlice [(i, Str v0)])" by simp
    show "len_map [(i, Str v0)] \<le> maxSliceSize" by (simp add: len_map_def maxSliceSize_def)
    show "maxSliceSize < len_map [(i, Str v0)] + length rest" using assms(4) idxs by (simp add: len_map_def)
  qed
  with st fi idxs show ?thesis by simp
qed


lemma indexElements_keys: "map fst (indexElements v n) = map int [0..<n]"
  by (induction n) auto

lemma indexElements_len: "len_map (indexElements v n) = n"
proof -
  have "distinct (map int [0..<n])" by (simp add: distinct_map)
  then show ?thesis by (simp add: len_map_def indexElements_keys distinct_remdups_id)
qed




section \<open>The final pass over the decoded tree\<close>

text \<open>
  Claim C2. The claim: whenever Decode succeeds, the returned tree holds no sparse slice
  at any depth, also not inside a map that is an element of a sparse slice. The source
  does not do that: \<^verbatim>\<open>convertMinSlicesToRegularSlices\<close> walks maps only, and the elements
  of the slice that \<^verbatim>\<open>toSlice\<close> returns are not visited. Decoding the single pair
  \<^verbatim>\<open>a[0].b[0]=x\<close> succeeds and returns a tree in which \<^verbatim>\<open>b\<close> is still bound to the
  \<^verbatim>\<open>*minSlice\<close>.
\<close>

theorem C2_sparse_slice_inside_slice_element_survives:
  "Decode [(''a[0].b[0]'', [''x''])] =
     Inr [(''a'', SliceN [MapN [(''b'', MinSlice [(0, Str ''x'')])]])]
   \<and> hasMinSlice (MapN [(''a'', SliceN [MapN [(''b'', MinSlice [(0, Str ''x'')])]])])"
  by code_simp

section \<open>The recursion-depth guard\<close>

lemma decodeURL_RDE_iff: "decodeURL vals = Inl RecursionDepthExceeded \<longleftrightarrow>
   (\<exists>pre key v0 vs post d t. vals = pre @ (key, v0 # vs) # post \<and> decodeLoop [] 0 pre = (d, Inr t)
       \<and> maxRecursionDepth < length (Split key))"
proof
  assume "decodeURL vals = Inl RecursionDepthExceeded"
  then have "snd (decodeLoop [] 0 vals) = Inl RecursionDepthExceeded"
    by (simp add: decodeURL_def split: sum.splits)
  from decodeLoop_error_split[OF this] obtain pre key vs post d' t' where
    h: "vals = pre @ (key, vs) # post" "decodeLoop [] 0 pre = (d', Inr t')"
       "(case vs of [] \<Rightarrow> RecursionDepthExceeded = PanicIndexOutOfRange | v0 # _ \<Rightarrow> snd (setNestedMapValue t' key (Str v0) d') = Inl RecursionDepthExceeded)"
    by blast
  from h(3) obtain v0 vs' where vs: "vs = v0 # vs'" and
    "snd (setNestedMapValue t' key (Str v0) d') = Inl RecursionDepthExceeded"
    by (cases vs) auto
  then have "maxRecursionDepth < length (Split key)" by (simp add: setNestedMapValue_RDE)
  with h(1,2) vs show "\<exists>pre key v0 vs post d t. vals = pre @ (key, v0 # vs) # post \<and> decodeLoop [] 0 pre = (d, Inr t)
       \<and> maxRecursionDepth < length (Split key)" by blast
next
  assume "\<exists>pre key v0 vs post d t. vals = pre @ (key, v0 # vs) # post \<and> decodeLoop [] 0 pre = (d, Inr t)
       \<and> maxRecursionDepth < length (Split key)"
  then obtain pre key v0 vs post d t where
    h: "vals = pre @ (key, v0 # vs) # post" "decodeLoop [] 0 pre = (d, Inr t)"
       "maxRecursionDepth < length (Split key)" by blast
  from h(3) have "key \<noteq> []" by (auto simp: maxRecursionDepth_def)
  with h(3) have "snd (setNestedMapValue t key (Str v0) d) = Inl RecursionDepthExceeded"
    by (simp add: setNestedMapValue_RDE)
  then have "snd (decodeLoop t d ((key, v0 # vs) # post)) = Inl RecursionDepthExceeded"
    by (auto split: prod.splits sum.splits)
  with h(1,2) have "snd (decodeLoop [] 0 vals) = Inl RecursionDepthExceeded"
    by (simp add: decodeLoop_append)
  then show "decodeURL vals = Inl RecursionDepthExceeded" by (simp add: decodeURL_def)
qed

text \<open>
  Claim C3, as stated, at a concrete input: eleven pairs with one segment each. The
  counter shared by the pairs ends at 11, above the limit of 10, and Decode succeeds.
\<close>

theorem C3_aggregate_count_counterexample:
  "fst (decodeLoop [] 0
     [(''a'', [''1'']), (''b'', [''1'']), (''c'', [''1'']), (''d'', [''1'']), (''e'', [''1'']),
      (''f'', [''1'']), (''g'', [''1'']), (''h'', [''1'']), (''i'', [''1'']), (''j'', [''1'']),
      (''k'', [''1''])]) = 11
   \<and> int maxRecursionDepth < 11
   \<and> Decode
     [(''a'', [''1'']), (''b'', [''1'']), (''c'', [''1'']), (''d'', [''1'']), (''e'', [''1'']),
      (''f'', [''1'']), (''g'', [''1'']), (''h'', [''1'']), (''i'', [''1'']), (''j'', [''1'']),
      (''k'', [''1''])] =
     Inr [(''a'', Str ''1''), (''b'', Str ''1''), (''c'', Str ''1''), (''d'', Str ''1''),
          (''e'', Str ''1''), (''f'', Str ''1''), (''g'', Str ''1''), (''h'', Str ''1''),
          (''i'', Str ''1''), (''j'', Str ''1''), (''k'', Str ''1'')]"
  by code_simp

text \<open>
  Claim C3, amended. Decode fails with the recursion-depth error exactly when the pair
  at which decoding stops (every pair visited before it was decoded without error) has
  a non-empty value list and a path of more than 10 segments. The counter that is
  shared by the pairs is compared with nothing: the outcome of the loop is the same
  from every starting value of the counter.
\<close>

theorem C3_recursion_depth_exceeded_iff:
  "(Decode vals = Inl RecursionDepthExceeded \<longleftrightarrow>
      (\<exists>pre key v0 vs post d t. vals = pre @ (key, v0 # vs) # post \<and>
          decodeLoop [] 0 pre = (d, Inr t) \<and> maxRecursionDepth < length (Split key)))
   \<and> (\<forall>t d d'. snd (decodeLoop t d vals) = snd (decodeLoop t d' vals))"
  using decodeURL_RDE_iff[of vals] decodeLoop_depth[of _ _ vals]
  unfolding Decode_def by blast

theorem C3_recursion_depth_exceeded_witness:
  "Decode [(''a.a.a.a.a.a.a.a.a.a.a.a'', [''value''])] = Inl RecursionDepthExceeded"
proof -
  have l: "maxRecursionDepth < length (Split ''a.a.a.a.a.a.a.a.a.a.a.a'')" by code_simp
  have "\<exists>pre key v0 vs post d t.
          [(''a.a.a.a.a.a.a.a.a.a.a.a'', [''value''])] = pre @ (key, v0 # vs) # post \<and>
          decodeLoop [] 0 pre = (d, Inr t) \<and> maxRecursionDepth < length (Split key)"
    using l
    by (intro exI[of _ "[]"] exI[of _ "''a.a.a.a.a.a.a.a.a.a.a.a''"] exI[of _ "''value''"]
          exI[of _ "[]"] exI[of _ "0"]) simp
  then show ?thesis
    using C3_recursion_depth_exceeded_iff[of "[(''a.a.a.a.a.a.a.a.a.a.a.a'', [''value''])]"]
    by blast
qed

section \<open>Segments that look like an index\<close>

text \<open>
  Claim C4. The claim: every segment, final or not, that has both brackets and does not
  match the grammar makes Decode fail with the invalid-slice-index error. The source
  makes that check in \<^verbatim>\<open>setFinalValue\<close> only; \<^verbatim>\<open>getIntermediateValue\<close> takes such a
  segment as a map key. The path \<^verbatim>\<open>a[x].b\<close> has the segment \<^verbatim>\<open>a[x]\<close> before its last
  one: it has both brackets, it does not match, and Decode succeeds. The same segment
  in last position is refused.
\<close>

theorem C4_unmatched_intermediate_segment_accepted:
  "Split ''a[x].b'' = [''a[x]'', ''b'']
   \<and> CHR ''['' \<in> set ''a[x]'' \<and> CHR '']'' \<in> set ''a[x]'' \<and> FindStringSubmatch ''a[x]'' = None
   \<and> Decode [(''a[x].b'', [''v''])] = Inr [(''a[x]'', MapN [(''b'', Str ''v'')])]
   \<and> Decode [(''a[x]'', [''v''])] = Inl (InvalidSliceIndex ''a[x]'')"
  by code_simp

text \<open>
  Claim C5, as stated, at its own input: decoding \<^verbatim>\<open>list[-1]=value\<close> fails, and the
  error is the invalid-slice-index error of \<^verbatim>\<open>setFinalValue\<close>, not the negative-index
  error of \<^verbatim>\<open>parseSliceIndex\<close>.
\<close>

theorem C5_negative_index_counterexample: "Decode [(''list[-1]'', [''value''])] = Inl (InvalidSliceIndex ''list[-1]'')
  \<and> Decode [(''list[-1]'', [''value''])] \<noteq> Inl (NegativeIndex (- 1))"
  by code_simp

text \<open>
  Claim C5, amended. A pair whose path is \<^verbatim>\<open>list[-1]\<close> fails with the
  invalid-slice-index error that names the segment, whatever the tree holds and
  whatever the value is; and no input at all makes Decode return the negative-index
  error, because the grammar passes digits only to \<^verbatim>\<open>strconv.Atoi\<close>.
\<close>

theorem C5_negative_index_is_invalid_slice_index: "snd (setNestedMapValue current ''list[-1]'' v depth) = Inl (InvalidSliceIndex ''list[-1]'')
   \<and> Decode ((''list[-1]'', v0 # vs) # rest) = Inl (InvalidSliceIndex ''list[-1]'')
   \<and> Decode vals \<noteq> Inl (NegativeIndex i)"
proof -
  have f: "FindStringSubmatch ''list[-1]'' = None" by code_simp
  have s: "Split ''list[-1]'' = [''list[-1]'']" by code_simp
  have 1: "snd (setNestedMapValue current ''list[-1]'' v depth) = Inl (InvalidSliceIndex ''list[-1]'')" for current v depth
    by (simp add: setNestedMapValue_def s maxRecursionDepth_def setFinalValue_def f
             del: FindStringSubmatch.simps Split.simps)
  have 2: "decodeURL ((''list[-1]'', v0 # vs) # rest) = Inl (InvalidSliceIndex ''list[-1]'')"
    using 1[of "[]" "Str v0" 0] by (auto simp: decodeURL_def split: prod.splits sum.splits)
  have 3: "decodeURL vals \<noteq> Inl (NegativeIndex i)"
    using decodeLoop_errors[of "[]" 0 vals "NegativeIndex i"]
    by (auto simp: decodeURL_Inl segmentError_def)
  from 1 2 3 show ?thesis unfolding Decode_def by blast
qed

text \<open>
  Claim C10. The pattern is not anchored. A segment in which the grammar matches
  somewhere is handled, in last position and before it, exactly as the segment made of
  the captured name and index alone: what surrounds the match is dropped. The segment
  \<^verbatim>\<open>a[0]b\<close> is one: Decode binds \<^verbatim>\<open>a\<close> to a one-element slice and the \<^verbatim>\<open>b\<close> is gone.
\<close>

theorem C10_index_grammar_matches_substring:
  "(FindStringSubmatch part = Some [full, name, ds] \<longrightarrow>
      setFinalValue current part v = setFinalValue current (name @ ''['' @ ds @ '']'') v
    \<and> getIntermediateValue current part = getIntermediateValue current (name @ ''['' @ ds @ '']''))
   \<and> FindStringSubmatch ''a[0]b'' = Some [''a[0]'', ''a'', ''0'']
   \<and> Decode [(''a[0]b'', [x])] = Inr [(''a'', SliceN [Str x])]"
proof -
  have A: "setFinalValue current part v = setFinalValue current (name @ ''['' @ ds @ '']'') v
    \<and> getIntermediateValue current part = getIntermediateValue current (name @ ''['' @ ds @ '']'')"
    if h: "FindStringSubmatch part = Some [full, name, ds]"
    using h FindStringSubmatch_canon[OF h]
    by (simp add: setFinalValue_def getIntermediateValue_def)
  have B: "FindStringSubmatch ''a[0]b'' = Some [''a[0]'', ''a'', ''0'']" by code_simp
  have s: "Split ''a[0]b'' = [''a[0]b'']" by code_simp
  have a: "Atoi ''0'' = Some 0" by code_simp
  have C: "decodeURL [(''a[0]b'', [x])] = Inr [(''a'', SliceN [Str x])]"
    by (simp add: decodeURL_def setNestedMapValue_def s maxRecursionDepth_def setFinalValue_def B
          setSliceValue_def parseSliceIndex_def a getOrCreateSlice_def maxSliceSize_def len_map_def
          convertMinSlicesToRegularSlices_def toSlice_def
          del: FindStringSubmatch.simps Split.simps)
  from A B C show ?thesis unfolding Decode_def by blast
qed

theorem C10_index_grammar_witness:
  "FindStringSubmatch ''a[0]b'' = Some [''a[0]'', ''a'', ''0''] \<and>
   setFinalValue [] ''a[0]b'' (Str ''v'') = setFinalValue [] ''a[0]'' (Str ''v'') \<and>
   setFinalValue [] ''a[0]b'' (Str ''v'') = Inr [(''a'', MinSlice [(0, Str ''v'')])]"
proof -
  have 1: "FindStringSubmatch ''a[0]b'' = Some [''a[0]'', ''a'', ''0'']" by code_simp
  have 2: "setFinalValue [] ''a[0]'' (Str ''v'') = Inr [(''a'', MinSlice [(0, Str ''v'')])]" by code_simp
  from 1 2 show ?thesis
    using C10_index_grammar_matches_substring[of "''a[0]b''" "''a[0]''" "''a''" "''0''" "[]" "Str ''v''" "''v''"] by simp
qed

section \<open>Writing the leaf\<close>




section \<open>The first value of every key\<close>

text \<open>
  Claim C9. \<^verbatim>\<open>decodeURL\<close> reads \<^verbatim>\<open>value[0]\<close> without looking at the length. Decode
  panics exactly when the loop reaches a key whose value list is empty, every pair
  visited before it having been decoded without error; in particular it panics when
  such a key is visited first, which Go's unspecified \<^verbatim>\<open>range\<close> order allows for any
  key. When no value list is empty Decode does not panic.
\<close>

theorem C9_decode_panics_on_empty_value_list:
  "(Decode vals = Inl PanicIndexOutOfRange \<longleftrightarrow>
      (\<exists>pre key post d t. vals = pre @ (key, []) # post \<and> decodeLoop [] 0 pre = (d, Inr t)))
   \<and> Decode ((key0, []) # rest) = Inl PanicIndexOutOfRange
   \<and> (list_all (\<lambda>kv. snd kv \<noteq> []) vals \<longrightarrow> Decode vals \<noteq> Inl PanicIndexOutOfRange)"
proof -
  have A: "decodeURL vals = Inl PanicIndexOutOfRange \<longleftrightarrow>
      (\<exists>pre key post d t. vals = pre @ (key, []) # post \<and> decodeLoop [] 0 pre = (d, Inr t))" for vals
  proof
    assume "decodeURL vals = Inl PanicIndexOutOfRange"
    then have "snd (decodeLoop [] 0 vals) = Inl PanicIndexOutOfRange" by (simp add: decodeURL_Inl)
    from decodeLoop_error_split[OF this] obtain pre key vs post d' t' where
      h: "vals = pre @ (key, vs) # post" "decodeLoop [] 0 pre = (d', Inr t')"
       "(case vs of [] \<Rightarrow> PanicIndexOutOfRange = PanicIndexOutOfRange | v0 # _ \<Rightarrow> snd (setNestedMapValue t' key (Str v0) d') = Inl PanicIndexOutOfRange)"
      by blast
    have "vs = []"
    proof (cases vs)
      case Nil then show ?thesis .
    next
      case (Cons v0 vs')
      with h(3) have "snd (setNestedMapValue t' key (Str v0) d') = Inl PanicIndexOutOfRange" by simp
      from setNestedMapValue_errors[OF this] show ?thesis by (simp add: segmentError_def)
    qed
    with h(1,2) show "\<exists>pre key post d t. vals = pre @ (key, []) # post \<and> decodeLoop [] 0 pre = (d, Inr t)"
      by blast
  next
    assume "\<exists>pre key post d t. vals = pre @ (key, []) # post \<and> decodeLoop [] 0 pre = (d, Inr t)"
    then obtain pre key post d t where h: "vals = pre @ (key, []) # post" "decodeLoop [] 0 pre = (d, Inr t)"
      by blast
    then have "snd (decodeLoop [] 0 vals) = Inl PanicIndexOutOfRange"
      by (simp add: decodeLoop_append)
    then show "decodeURL vals = Inl PanicIndexOutOfRange" by (simp add: decodeURL_Inl)
  qed
  have B: "decodeURL ((key0, []) # rest) = Inl PanicIndexOutOfRange"
    by (simp add: decodeURL_def)
  have C: "list_all (\<lambda>kv. snd kv \<noteq> []) vals \<longrightarrow> decodeURL vals \<noteq> Inl PanicIndexOutOfRange"
  proof (intro impI notI)
    assume a: "list_all (\<lambda>kv. snd kv \<noteq> []) vals" and "decodeURL vals = Inl PanicIndexOutOfRange"
    with A obtain pre key post where "vals = pre @ (key, []) # post" by blast
    with a show False by simp
  qed
  from A B C show ?thesis unfolding Decode_def by blast
qed

theorem C9_decode_panics_witness:
  "list_all (\<lambda>kv. snd kv \<noteq> []) [(''a'', [''x''])] \<and> Decode [(''a'', [''x''])] \<noteq> Inl PanicIndexOutOfRange
   \<and> Decode [(''a'', [''x'']), (''b'', [])] = Inl PanicIndexOutOfRange"
proof -
  have 1: "list_all (\<lambda>kv. snd kv \<noteq> []) [(''a'', [''x''])]" by simp
  have 2: "decodeLoop [] 0 [(''a'', [''x''])] = (1, Inr [(''a'', Str ''x'')])" by code_simp
  have "\<exists>pre key post d t. [(''a'', [''x'']), (''b'', [])] = pre @ (key, []) # post \<and> decodeLoop [] 0 pre = (d, Inr t)"
    using 2 by (intro exI[of _ "[(''a'', [''x''])]"] exI[of _ "''b''"] exI[of _ "[]"] exI[of _ 1] exI[of _ "[(''a'', Str ''x'')]"]) simp
  with 1 show ?thesis
    using C9_decode_panics_on_empty_value_list[of "[(''a'', [''x''])]" "''a''" "[]"] C9_decode_panics_on_empty_value_list[of "[(''a'', [''x'']), (''b'', [])]" "''a''" "[]"]
    by blast
qed

section \<open>The size guard of sparse slices\<close>

lemma bounded_entries: "list_all snd (map (map_prod id slicesBounded) al) \<longleftrightarrow> (\<forall>(k, x) \<in> set al. slicesBounded x)"
  by (auto simp: list_all_iff)

lemma update_set_cases: "(k', x') \<in> set (AList.update k x al) \<Longrightarrow> (k', x') \<in> set al \<or> (k' = k \<and> x' = x)"
  by (induction al) (auto split: if_splits)

lemma bounded_update:
  assumes "slicesBounded (MapN t)" "slicesBounded x"
  shows "slicesBounded (MapN (AList.update k x t))"
  using assms by (auto simp: bounded_entries dest: update_set_cases)

lemma bounded_lookup: "slicesBounded (MapN t) \<Longrightarrow> map_of t k = Some x \<Longrightarrow> slicesBounded x"
  by (auto simp: bounded_entries dest: map_of_SomeD)

lemma bounded_elements_lookup:
  "slicesBounded (MinSlice e) \<Longrightarrow> map_of e i = Some x \<Longrightarrow> slicesBounded x"
  by (auto simp: bounded_entries dest: map_of_SomeD)

lemma bounded_store:
  assumes "slicesBounded (MinSlice e)" "slicesBounded x" "len_map e < maxSliceSize \<or> i \<in> fst ` set e"
  shows "slicesBounded (MinSlice (AList.update i x e))"
  using assms by (auto simp: bounded_entries len_map_update dest: update_set_cases)

lemma getOrCreateSlice_bounded:
  assumes "slicesBounded (MapN t)" "getOrCreateSlice t name = Inr (t1, e)"
  shows "slicesBounded (MapN t1)" "slicesBounded (MinSlice e)" "len_map e < maxSliceSize"
    "map_of t1 name = Some (MinSlice e)"
proof -
  from assms(2) have h: "len_map e < maxSliceSize" "map_of t1 name = Some (MinSlice e)"
    "t1 = t \<or> t1 = AList.update name (MinSlice []) t"
    by (auto simp: getOrCreateSlice_def Let_def split: option.splits node.splits if_splits)
  show "len_map e < maxSliceSize" "map_of t1 name = Some (MinSlice e)" using h by auto
  show b: "slicesBounded (MapN t1)"
    using h(3) assms(1) bounded_update[OF assms(1), of "MinSlice []" name]
    by (auto simp: len_map_def)
  from bounded_lookup[OF b h(2)] show "slicesBounded (MinSlice e)" .
qed

lemma setFinalValue_bounded:
  assumes "slicesBounded (MapN t)" "slicesBounded v" "setFinalValue t part v = Inr t'"
  shows "slicesBounded (MapN t')"
proof (cases "FindStringSubmatch part")
  case None
  with assms(3) have "t' = AList.update part v t"
    by (auto simp: setFinalValue_def split: if_splits option.splits)
  with assms(1,2) show ?thesis by (simp add: bounded_update del: slicesBounded.simps)
next
  case (Some m)
  with assms(3) have "setSliceValue t m v = Inr t'" by (simp add: setFinalValue_def)
  then obtain name idx t1 e where
    g: "getOrCreateSlice t name = Inr (t1, e)" and
    t': "t' = AList.update name (MinSlice (AList.update idx v e)) t1"
    by (auto simp: setSliceValue_def split: sum.splits prod.splits)
  note b = getOrCreateSlice_bounded[OF assms(1) g]
  have "slicesBounded (MinSlice (AList.update idx v e))"
    by (rule bounded_store[OF b(2) assms(2)]) (simp add: b(3))
  from bounded_update[OF b(1) this] t' show ?thesis by simp
qed

lemma getIntermediateValue_bounded:
  assumes "slicesBounded (MapN t)" "getIntermediateValue t part = Inr (t1, pl, m1)"
  shows "slicesBounded (MapN m1)"
    and "slicesBounded (MapN m') \<Longrightarrow> slicesBounded (MapN (putBack t1 pl m'))"
proof -
  have "slicesBounded (MapN m1) \<and> (slicesBounded (MapN m') \<longrightarrow> slicesBounded (MapN (putBack t1 pl m')))"
  proof (cases "FindStringSubmatch part")
    case None
    let ?t = "case map_of t part of None \<Rightarrow> AList.update part (MapN []) t | Some x \<Rightarrow> t"
    from None assms(2) have h: "t1 = ?t" "pl = AtKey part" "map_of ?t part = Some (MapN m1)"
      by (auto simp: getIntermediateValue_def getMap_def Let_def split: sum.splits option.splits node.splits)
    have b: "slicesBounded (MapN ?t)"
      using assms(1) bounded_update[OF assms(1), of "MapN []" part] by (auto split: option.splits)
    from bounded_lookup[OF b h(3)] have 1: "slicesBounded (MapN m1)" .
    have 2: "slicesBounded (MapN (putBack t1 pl m'))" if "slicesBounded (MapN m')"
      using bounded_update[OF b that, of part] h(1,2) by simp
    from 1 2 show ?thesis by blast
  next
    case (Some m)
    with assms(2) have "createMapIntoSlice m t = Inr (t1, pl, m1)" by (simp add: getIntermediateValue_def)
    then obtain name idx t0 e where
      g: "getOrCreateSlice t name = Inr (t0, e)" and
      h: "t1 = AList.update name (MinSlice (case map_of e idx of None \<Rightarrow> AList.update idx (MapN []) e | Some x \<Rightarrow> e)) t0"
         "pl = AtIndex name idx"
         "map_of (case map_of e idx of None \<Rightarrow> AList.update idx (MapN []) e | Some x \<Rightarrow> e) idx = Some (MapN m1)"
      by (auto simp: createMapIntoSlice_def Let_def split: sum.splits prod.splits option.splits node.splits)
    let ?e = "case map_of e idx of None \<Rightarrow> AList.update idx (MapN []) e | Some x \<Rightarrow> e"
    note b = getOrCreateSlice_bounded[OF assms(1) g]
    have be: "slicesBounded (MinSlice ?e)"
    proof (cases "map_of e idx")
      case None
      have "slicesBounded (MinSlice (AList.update idx (MapN []) e))"
        by (rule bounded_store[OF b(2)]) (simp_all add: b(3))
      with None show ?thesis by simp
    next
      case (Some x)
      with b(2) show ?thesis by simp
    qed
    from bounded_elements_lookup[OF be h(3)] have 1: "slicesBounded (MapN m1)" .
    have bt1: "slicesBounded (MapN t1)" unfolding h(1) by (rule bounded_update[OF b(1) be])
    have look: "map_of t1 name = Some (MinSlice ?e)" unfolding h(1) by (simp add: update_conv')
    have inkeys: "idx \<in> fst ` set ?e"
      using h(3) by (metis domI dom_map_of_conv_image_fst)
    have 2: "slicesBounded (MapN (putBack t1 pl m'))" if "slicesBounded (MapN m')"
    proof -
      have "slicesBounded (MinSlice (AList.update idx (MapN m') ?e))"
        by (rule bounded_store[OF be that]) (simp add: inkeys)
      from bounded_update[OF bt1 this, of name] look h(2) show ?thesis by simp
    qed
    from 1 2 show ?thesis by blast
  qed
  then show "slicesBounded (MapN m1)"
    and "slicesBounded (MapN m') \<Longrightarrow> slicesBounded (MapN (putBack t1 pl m'))" by auto
qed

lemma walkParts_bounded:
  "slicesBounded (MapN t) \<Longrightarrow> slicesBounded v \<Longrightarrow> snd (walkParts t parts v d) = Inr t' \<Longrightarrow>
   slicesBounded (MapN t')"
proof (induction t parts v d arbitrary: t' rule: walkParts.induct)
  case (1 current v depth)
  then show ?case by simp
next
  case (2 current part rest v depth)
  show ?case
  proof (cases "rest = []")
    case True
    with "2.prems"(3) have "setFinalValue current part v = Inr t'" by simp
    from setFinalValue_bounded[OF "2.prems"(1,2) this] show ?thesis .
  next
    case False
    from False "2.prems"(3) obtain t1 pl m1 where
      g: "getIntermediateValue current part = Inr (t1, pl, m1)"
      by (cases "getIntermediateValue current part") auto
    from False g "2.prems"(3) obtain m' where
      m': "snd (walkParts m1 rest v (depth + 1)) = Inr m'" "t' = putBack t1 pl m'"
      by (auto split: prod.splits sum.splits)
    note b = getIntermediateValue_bounded[OF "2.prems"(1) g]
    from "2.IH"[OF False g refl refl b(1) "2.prems"(2) m'(1)] have "slicesBounded (MapN m')" .
    from b(2)[OF this] m'(2) show ?thesis by simp
  qed
qed

lemma setNestedMapValue_bounded:
  assumes "slicesBounded (MapN t)" "slicesBounded v" "snd (setNestedMapValue t key v d) = Inr t'"
  shows "slicesBounded (MapN t')"
proof (cases "key = []")
  case True
  with assms(3) have "t' = AList.update [] v t"
    by (auto simp: setNestedMapValue_def split: option.splits)
  with bounded_update[OF assms(1,2)] show ?thesis by simp
next
  case False
  with assms(3) have "snd (walkParts t (Split key) v d) = Inr t'"
    by (auto simp: setNestedMapValue_def Let_def split: if_splits)
  from walkParts_bounded[OF assms(1,2) this] show ?thesis .
qed

lemma decodeLoop_bounded:
  "slicesBounded (MapN t) \<Longrightarrow> snd (decodeLoop t d vals) = Inr t' \<Longrightarrow> slicesBounded (MapN t')"
proof (induction vals arbitrary: t d)
  case Nil
  then show ?case by simp
next
  case (Cons kv vals)
  obtain key vs where kv: "kv = (key, vs)" by (cases kv)
  from Cons.prems(2) kv obtain v0 vs' where vs: "vs = v0 # vs'" by (cases vs) auto
  obtain d1 r1 where s: "setNestedMapValue t key (Str v0) d = (d1, r1)"
    by (cases "setNestedMapValue t key (Str v0) d")
  with Cons.prems(2) kv vs obtain t1 where r1: "r1 = Inr t1" by (cases r1) auto
  have "slicesBounded (MapN t1)"
    by (rule setNestedMapValue_bounded[OF Cons.prems(1), of "Str v0" key d]) (simp_all add: s r1)
  moreover from Cons.prems(2) kv vs s r1 have "snd (decodeLoop t1 d1 vals) = Inr t'" by simp
  ultimately show ?case by (rule Cons.IH)
qed

text \<open>
  Claim C7. Decoding 1001 pairs \<^verbatim>\<open>name[i]=\<dots>\<close> with pairwise distinct indices on one
  name, visited in any order, fails with the slice-size error. The guard sits in
  \<^verbatim>\<open>getOrCreateSlice\<close>: a sparse slice that already holds 1000 entries is refused, so a
  sparse slice that is handed out holds fewer than 1000 entries and holds at most 1000
  after the one store that follows. In every tree the loop of the decoder reaches,
  every sparse slice holds at most 1000 entries.
\<close>

theorem C7_slice_size_exceeded:
  "(name \<noteq> [] \<and> list_all isWord name \<and> distinct idxs \<and> length idxs = 1001 \<and>
    list_all (\<lambda>i. 0 \<le> i \<and> i < 2 ^ 63) idxs \<and> list_all (\<lambda>i. f i \<noteq> []) idxs \<longrightarrow>
      Decode (map (\<lambda>i. (name @ ''['' @ Itoa i @ '']'', f i)) idxs) = Inl SliceSizeExceeded)
   \<and> (map_of current sliceName = Some (MinSlice elements) \<and> maxSliceSize \<le> len_map elements \<longrightarrow>
        getOrCreateSlice current sliceName = Inl SliceSizeExceeded)
   \<and> (getOrCreateSlice current sliceName = Inr (current', elements') \<longrightarrow>
        len_map elements' < maxSliceSize \<and> len_map (AList.update idx v elements') \<le> maxSliceSize)
   \<and> (snd (decodeLoop [] 0 vals) = Inr t \<longrightarrow> slicesBounded (MapN t))"
proof (intro conjI impI)
  assume "snd (decodeLoop [] 0 vals) = Inr t"
  then show "slicesBounded (MapN t)" by (intro decodeLoop_bounded[of "[]" 0 vals t]) simp_all
next
  assume h: "name \<noteq> [] \<and> list_all isWord name \<and> distinct idxs \<and> length idxs = 1001 \<and>
    list_all (\<lambda>i. 0 \<le> i \<and> i < 2 ^ 63) idxs \<and> list_all (\<lambda>i. f i \<noteq> []) idxs"
  then have "maxSliceSize < length idxs" by (simp add: maxSliceSize_def)
  with h have "snd (decodeLoop [] 0 (map (\<lambda>i. (name @ ''['' @ Itoa i @ '']'', f i)) idxs)) = Inl SliceSizeExceeded"
    by (intro decode_too_many_indices) simp_all
  then show "Decode (map (\<lambda>i. (name @ ''['' @ Itoa i @ '']'', f i)) idxs) = Inl SliceSizeExceeded"
    by (simp add: Decode_def decodeURL_Inl)
next
  assume "map_of current sliceName = Some (MinSlice elements) \<and> maxSliceSize \<le> len_map elements"
  then show "getOrCreateSlice current sliceName = Inl SliceSizeExceeded"
    by (simp add: getOrCreateSlice_def)
next
  assume h: "getOrCreateSlice current sliceName = Inr (current', elements')"
  then show "len_map elements' < maxSliceSize"
    by (auto simp: getOrCreateSlice_def Let_def split: option.splits node.splits if_splits)
  then show "len_map (AList.update idx v elements') \<le> maxSliceSize"
    by (simp add: len_map_update)
qed

theorem C7_slice_size_exceeded_witness:
  "Decode (map (\<lambda>i. (''bigSlice'' @ ''['' @ Itoa i @ '']'', [''val''])) (map int [0..<1001])) = Inl SliceSizeExceeded
   \<and> getOrCreateSlice [(''bigSlice'', MinSlice (indexElements ''val'' 1000))] ''bigSlice'' = Inl SliceSizeExceeded
   \<and> getOrCreateSlice [] ''bigSlice'' = Inr ([(''bigSlice'', MinSlice [])], [])
   \<and> len_map (AList.update (0::int) (Str ''val'') []) \<le> maxSliceSize
   \<and> snd (decodeLoop [] 0 [(''s[5]'', [''x''])]) = Inr [(''s'', MinSlice [(5, Str ''x'')])]
   \<and> slicesBounded (MapN [(''s'', MinSlice [(5, Str ''x'')])])"
proof -
  have 1: "''bigSlice'' \<noteq> [] \<and> list_all isWord ''bigSlice'' \<and> distinct (map int [0..<1001]) \<and>
    length (map int [0..<1001]) = 1001 \<and>
    list_all (\<lambda>i. 0 \<le> i \<and> i < 2 ^ 63) (map int [0..<1001]) \<and>
    list_all (\<lambda>i. [''val''] \<noteq> []) (map int [0..<1001])"
    by (simp add: isWord_def distinct_map list_all_iff)
  have 2: "map_of [(''bigSlice'', MinSlice (indexElements ''val'' 1000))] ''bigSlice'' = Some (MinSlice (indexElements ''val'' 1000))
     \<and> maxSliceSize \<le> len_map (indexElements ''val'' 1000)"
    by (simp add: indexElements_len maxSliceSize_def)
  have 3: "getOrCreateSlice [] ''bigSlice'' = Inr ([(''bigSlice'', MinSlice [])], [])"
    by (simp add: getOrCreateSlice_def len_map_def maxSliceSize_def)
  have a: "Decode (map (\<lambda>i. (''bigSlice'' @ ''['' @ Itoa i @ '']'', [''val''])) (map int [0..<1001])) = Inl SliceSizeExceeded
     \<and> getOrCreateSlice [(''bigSlice'', MinSlice (indexElements ''val'' 1000))] ''bigSlice'' = Inl SliceSizeExceeded"
    using 1 2
      C7_slice_size_exceeded[of "''bigSlice''" "map int [0..<1001]" "\<lambda>_. [''val'']"
            "[(''bigSlice'', MinSlice (indexElements ''val'' 1000))]" "''bigSlice''" "indexElements ''val'' 1000"
            "[(''bigSlice'', MinSlice [])]" "[]" 0 "Str ''val''"]
    by blast
  have b: "len_map (AList.update (0::int) (Str ''val'') []) \<le> maxSliceSize"
    using 3
      C7_slice_size_exceeded[of "''bigSlice''" "map int [0..<1001]" "\<lambda>_. [''val'']"
            "[]" "''bigSlice''" "indexElements ''val'' 1000"
            "[(''bigSlice'', MinSlice [])]" "[]" 0 "Str ''val''"]
    by blast
  have 4: "snd (decodeLoop [] 0 [(''s[5]'', [''x''])]) = Inr [(''s'', MinSlice [(5, Str ''x'')])]"
    by code_simp
  have c: "slicesBounded (MapN [(''s'', MinSlice [(5, Str ''x'')])])"
    using 4
      C7_slice_size_exceeded[of "''bigSlice''" "map int [0..<1001]" "\<lambda>_. [''val'']"
            "[]" "''bigSlice''" "indexElements ''val'' 1000"
            "[(''bigSlice'', MinSlice [])]" "[]" 0 "Str ''val''"
            "[(''s[5]'', [''x''])]" "[(''s'', MinSlice [(5, Str ''x'')])]"]
    by blast
  from a b c 3 4 show ?thesis by blast
qed

section \<open>Encoding a nil pointer or interface\<close>


section \<open>Encoding and decoding again\<close>

subsection \<open>Parts of a tree\<close>

lemma strOrMap_simps [simp]:
  "strOrMap None = None" "strOrMap (Some (Str s)) = Some (Str s)" "strOrMap (Some (MapN m)) = Some (MapN m)"
  "strOrMap (Some (MinSlice e)) = None" "strOrMap (Some (SliceN xs)) = None"
  by (simp_all add: strOrMap_def)












subsection \<open>One step of the decoder on a well-formed segment\<close>









subsection \<open>Storing one leaf\<close>







subsection \<open>Paths as strings, and decoding a list of leaves\<close>








subsection \<open>What the encoder emits\<close>

lemma setAll_simps [simp]:
  "setAll [] vals = vals"
  "setAll (ks # kvs) vals = setAll kvs (Set_value vals (fst ks) (snd ks))"
  "setAll (xs @ ys) vals = setAll ys (setAll xs vals)"
  by (simp_all add: setAll_def)







subsection \<open>The tree of the encoded value\<close>

lemma internal_simps2 [simp]:
  "internal (VMap m) = MapN (internalMap m)"
  "internal (VSlice xs) = MinSlice (internalSlice xs)"
  by (simp_all add: internalMap_def internalSlice_def)

declare internal.simps(6,7) [simp del]










subsection \<open>From the decoded tree to the stringified value\<close>










lemma cv_Str [simp]: "cv a (Str s) = Str s"
  by (simp add: cv_def)



subsection \<open>Rendering is injective\<close>











subsection \<open>The round trip\<close>





section \<open>Decoding what was encoded\<close>









end
